theory Spec2Isabelle
  imports Main "HOL-Library.AList"
begin

section \<open>The rate limiter of \<^verbatim>\<open>src/middleware.ts\<close>\<close>

text \<open>
  The module keeps one table, \<^verbatim>\<open>ipHits: Map<string, {count, resetAt}>\<close>, and two
  constants. The values of the table are JavaScript objects, and \<^verbatim>\<open>isRateLimited\<close>
  mutates the object it got from \<^verbatim>\<open>ipHits.get\<close> in place (\<^verbatim>\<open>record.count += 1\<close>),
  on one path without writing it back with \<^verbatim>\<open>ipHits.set\<close>. The model therefore
  keeps the objects in an explicit store: the table maps a key to an address, the store
  holds the object at each address, and an object literal allocates a new address.

  \<^verbatim>\<open>count\<close> and \<^verbatim>\<open>resetAt\<close> are JavaScript numbers that only ever hold integers
  (a counter that starts at 1 and grows by 1, and \<^verbatim>\<open>Date.now()\<close> plus a constant);
  they are modelled as \<open>int\<close>. The reading of the clock, \<^verbatim>\<open>Date.now()\<close>, is the
  parameter \<open>now\<close>.
\<close>

definition RATE_LIMIT_WINDOW_MS :: int where
  "RATE_LIMIT_WINDOW_MS = 60000"

definition RATE_LIMIT_MAX :: int where
  "RATE_LIMIT_MAX = 10"

record hit =
  count :: int
  resetAt :: int

type_synonym addr = nat

text \<open>
  \<open>ipHits\<close> is the \<^verbatim>\<open>Map\<close>, in insertion order; \<open>heap\<close> holds the objects, the
  address of an object being its position.
\<close>

record limiter =
  ipHits :: "(string \<times> addr) list"
  heap :: "hit list"

definition init :: limiter where
  "init = \<lparr>ipHits = [], heap = []\<rparr>"

text \<open>\<^verbatim>\<open>ipHits.get(ip)\<close>: the reference stored for the key, or \<^verbatim>\<open>undefined\<close>.\<close>

definition ipHits_get :: "string \<Rightarrow> limiter \<Rightarrow> addr option" where
  "ipHits_get ip s = map_of (ipHits s) ip"

text \<open>
  \<^verbatim>\<open>ipHits.set(ip, ref)\<close>: an existing key keeps its place and gets the new value, a
  new key is appended.
\<close>

definition ipHits_set :: "string \<Rightarrow> addr \<Rightarrow> limiter \<Rightarrow> limiter" where
  "ipHits_set ip a s = s\<lparr>ipHits := AList.update ip a (ipHits s)\<rparr>"

text \<open>The object literal \<^verbatim>\<open>{ count: c, resetAt: r }\<close>: a new object in the store.\<close>

definition new_hit :: "hit \<Rightarrow> limiter \<Rightarrow> addr \<times> limiter" where
  "new_hit r s = (length (heap s), s\<lparr>heap := heap s @ [r]\<rparr>)"

text \<open>\<^verbatim>\<open>record.count += 1\<close> on the object at address \<open>a\<close>.\<close>

definition incr_count :: "addr \<Rightarrow> limiter \<Rightarrow> limiter" where
  "incr_count a s = s\<lparr>heap := (heap s)[a := (heap s ! a)\<lparr>count := count (heap s ! a) + 1\<rparr>]\<rparr>"

text \<open>
  \<^verbatim>\<open>isRateLimited(ip)\<close>, lines 41 to 62. The result \<open>True\<close> is "rate limited"
  (the spec's Reject), \<open>False\<close> is the spec's Admit.
\<close>

definition isRateLimited :: "string \<Rightarrow> int \<Rightarrow> limiter \<Rightarrow> bool \<times> limiter" where
  "isRateLimited ip now s =
     (case ipHits_get ip s of
        None \<Rightarrow>
          (let (a, s1) = new_hit \<lparr>count = 1, resetAt = now + RATE_LIMIT_WINDOW_MS\<rparr> s
           in (False, ipHits_set ip a s1))
      | Some rec \<Rightarrow>
          if resetAt (heap s ! rec) < now then
            (let (a, s1) = new_hit \<lparr>count = 1, resetAt = now + RATE_LIMIT_WINDOW_MS\<rparr> s
             in (False, ipHits_set ip a s1))
          else
            (let s1 = incr_count rec s
             in if count (heap s1 ! rec) > RATE_LIMIT_MAX then (True, s1)
                else (False, ipHits_set ip rec s1)))"

text \<open>The record a key currently has in the table, read through the reference.\<close>

definition record_of :: "limiter \<Rightarrow> string \<Rightarrow> hit option" where
  "record_of s ip = map_option (\<lambda>a. heap s ! a) (ipHits_get ip s)"

text \<open>
  A key is fresh at time \<open>now\<close> when \<^verbatim>\<open>!record || record.resetAt < now\<close> holds: it has
  no record, or its record has expired.
\<close>

definition fresh :: "string \<Rightarrow> int \<Rightarrow> limiter \<Rightarrow> bool" where
  "fresh ip now s = (case record_of s ip of None \<Rightarrow> True | Some r \<Rightarrow> resetAt r < now)"

subsection \<open>Histories of calls\<close>

text \<open>A call is a key and the clock reading of the call; \<open>run\<close> makes the calls in order.\<close>

type_synonym call = "string \<times> int"

fun run :: "call list \<Rightarrow> limiter \<Rightarrow> bool list \<times> limiter" where
  "run [] s = ([], s)"
| "run (c # cs) s =
     (let (b, s1) = isRateLimited (fst c) (snd c) s;
          (bs, s2) = run cs s1
      in (b # bs, s2))"

definition outcomes :: "call list \<Rightarrow> limiter \<Rightarrow> bool list" where
  "outcomes cs s = fst (run cs s)"

definition final :: "call list \<Rightarrow> limiter \<Rightarrow> limiter" where
  "final cs s = snd (run cs s)"

text \<open>The calls of a history that are for key \<open>ip\<close>, and their results.\<close>

definition calls_for :: "string \<Rightarrow> call list \<Rightarrow> call list" where
  "calls_for ip cs = filter (\<lambda>c. fst c = ip) cs"

definition outcomes_for :: "string \<Rightarrow> call list \<Rightarrow> limiter \<Rightarrow> bool list" where
  "outcomes_for ip cs s = map snd (filter (\<lambda>cb. fst (fst cb) = ip) (zip cs (outcomes cs s)))"

text \<open>The states the module can be in: the empty table, and what calls make of it.\<close>

inductive reachable :: "limiter \<Rightarrow> bool" where
  reachable_init: "reachable init"
| reachable_step: "reachable s \<Longrightarrow> reachable (snd (isRateLimited ip now s))"

text \<open>
  What holds of the store in every reachable state: references point into the store,
  and no two keys share an object.
\<close>

definition store_ok :: "limiter \<Rightarrow> bool" where
  "store_ok s \<longleftrightarrow>
     (\<forall>k a. ipHits_get k s = Some a \<longrightarrow> a < length (heap s)) \<and>
     (\<forall>k k' a. ipHits_get k s = Some a \<and> ipHits_get k' s = Some a \<longrightarrow> k = k')"

section \<open>The middleware of \<^verbatim>\<open>src/middleware.ts\<close>\<close>

text \<open>
  What \<^verbatim>\<open>middleware\<close> reads of a \<^verbatim>\<open>NextRequest\<close>: the method, the path of
  \<^verbatim>\<open>new URL(request.url)\<close>, \<^verbatim>\<open>request.ip\<close> (a string or \<^verbatim>\<open>undefined\<close>) and the
  headers. A header value is a byte string, so a \<open>string\<close> of 8-bit characters.
\<close>

record request =
  req_method :: string
  req_pathname :: string
  req_ip :: "string option"
  req_headers :: "(string \<times> string) list"

text \<open>
  \<open>req_headers\<close> is the header list of the request, in order, each name spelled as
  it came (\<open>X-Forwarded-For\<close>, \<open>x-forwarded-for\<close>, ...). Header names are matched
  without regard to the case of the letters A to Z.
\<close>

definition byte_lowercase :: "char \<Rightarrow> char" where
  "byte_lowercase c =
     (let n = (of_char c :: nat) in if 65 \<le> n \<and> n \<le> 90 then char_of (n + 32) else c)"

text \<open>The values of the headers of one name are joined with a comma and a space.\<close>

fun join_values :: "string list \<Rightarrow> string" where
  "join_values [] = []"
| "join_values [v] = v"
| "join_values (v # w # vs) = v @ '', '' @ join_values (w # vs)"

text \<open>
  \<^verbatim>\<open>request.headers.get(name)\<close>: \<^verbatim>\<open>null\<close> when no header has the name (in any
  spelling), else the values of the headers that have it, in order, joined.
\<close>

definition headers_get :: "string \<Rightarrow> request \<Rightarrow> string option" where
  "headers_get name req =
     (case map snd (filter (\<lambda>h. map byte_lowercase (fst h) = map byte_lowercase name)
                      (req_headers req)) of
        [] \<Rightarrow> None
      | v # vs \<Rightarrow> Some (join_values (v # vs)))"

text \<open>
  JavaScript's \<^verbatim>\<open>a || b\<close> on values that are a string, \<^verbatim>\<open>undefined\<close> or \<^verbatim>\<open>null\<close>:
  \<^verbatim>\<open>undefined\<close>, \<^verbatim>\<open>null\<close> and the empty string are falsy, every other string is truthy.
\<close>

definition truthy :: "string option \<Rightarrow> bool" where
  "truthy v = (case v of None \<Rightarrow> False | Some s \<Rightarrow> s \<noteq> [])"

definition js_or :: "string option \<Rightarrow> string option \<Rightarrow> string option" where
  "js_or a b = (if truthy a then a else b)"

text \<open>
  \<^verbatim>\<open>s.split(sep)\<close> for a separator of one character: the pieces between the
  separators, one piece (the empty string) for the empty string.
\<close>

fun split :: "char \<Rightarrow> string \<Rightarrow> string list" where
  "split sep [] = [[]]"
| "split sep (c # cs) =
     (if c = sep then [] # split sep cs
      else (case split sep cs of [] \<Rightarrow> [[c]] | w # ws \<Rightarrow> (c # w) # ws))"

text \<open>\<^verbatim>\<open>xs[i]\<close> on an array: \<^verbatim>\<open>undefined\<close> out of range.\<close>

definition at :: "'a list \<Rightarrow> nat \<Rightarrow> 'a option" where
  "at xs i = (if i < length xs then Some (xs ! i) else None)"

text \<open>
  \<^verbatim>\<open>s.trim()\<close> removes white space and line terminators from both ends. Among the
  8-bit characters these are tab, line feed, vertical tab, form feed, carriage return,
  space and the no-break space.
\<close>

definition is_space :: "char \<Rightarrow> bool" where
  "is_space c \<longleftrightarrow> c \<in> set [CHR 0x09, CHR 0x0A, CHR 0x0B, CHR 0x0C, CHR 0x0D, CHR 0x20, CHR 0xA0]"

definition trim :: "string \<Rightarrow> string" where
  "trim s = rev (dropWhile is_space (rev (dropWhile is_space s)))"

text \<open>
  Line 103, the key given to the limiter:
  \<^verbatim>\<open>request.ip || request.headers.get('x-forwarded-for')?.split(',')[0]?.trim() || 'unknown'\<close>.
  The optional chaining \<^verbatim>\<open>?.\<close> passes \<^verbatim>\<open>null\<close> and \<^verbatim>\<open>undefined\<close> on.
\<close>

definition client_ip :: "request \<Rightarrow> string" where
  "client_ip req =
     (case js_or
             (js_or (req_ip req)
                (map_option trim
                   (Option.bind (headers_get ''x-forwarded-for'' req)
                      (\<lambda>h. at (split CHR '','' h) 0))))
             (Some ''unknown'') of
        Some s \<Rightarrow> s
      | None \<Rightarrow> ''unknown'')"

record response =
  resp_body :: string
  resp_status :: nat

text \<open>\<^verbatim>\<open>new NextResponse(body, { status })\<close>.\<close>

definition NextResponse :: "string \<Rightarrow> nat \<Rightarrow> response" where
  "NextResponse b st = \<lparr>resp_body = b, resp_status = st\<rparr>"

definition isProtectedPath :: "request \<Rightarrow> bool" where
  "isProtectedPath req \<longleftrightarrow>
     req_method req = ''POST'' \<and> (req_pathname req = ''/login'' \<or> req_pathname req = ''/create'')"

text \<open>
  \<^verbatim>\<open>middleware(request)\<close>, lines 96 to 113. The session refresh, \<^verbatim>\<open>updateSession\<close>
  of \<^verbatim>\<open>src/lib/supabase/middleware.ts\<close>, talks to the authentication service; it is
  the parameter \<open>updateSession\<close>, a function of the request and of the state \<open>w\<close> of
  everything outside the limiter, which it may change.
\<close>

definition middleware ::
  "(request \<Rightarrow> 'w \<Rightarrow> response \<times> 'w) \<Rightarrow> request \<Rightarrow> int \<Rightarrow> limiter \<Rightarrow> 'w
     \<Rightarrow> response \<times> limiter \<times> 'w" where
  "middleware updateSession req now s w =
     (if isProtectedPath req then
        (let ip = client_ip req;
             (limited, s1) = isRateLimited ip now s
         in if limited then (NextResponse ''Too Many Requests'' 429, s1, w)
            else (let (resp, w1) = updateSession req w in (resp, s1, w1)))
      else (let (resp, w1) = updateSession req w in (resp, s, w1)))"

section \<open>One call of the limiter\<close>

lemma store_ok_init: "store_ok init"
  by (simp add: store_ok_def init_def ipHits_get_def)

lemma ipHits_get_set:
  "ipHits_get k (ipHits_set ip a s) = (if k = ip then Some a else ipHits_get k s)"
  by (simp add: ipHits_get_def ipHits_set_def update_conv')

lemma heap_ipHits_set: "heap (ipHits_set ip a s) = heap s"
  by (simp add: ipHits_set_def)

lemma ipHits_get_heap_update: "ipHits_get k (s\<lparr>heap := h\<rparr>) = ipHits_get k s"
  by (simp add: ipHits_get_def)

lemma ipHits_get_incr_count: "ipHits_get k (incr_count a s) = ipHits_get k s"
  by (simp add: ipHits_get_def incr_count_def)

lemma heap_incr_count:
  "heap (incr_count a s) = (heap s)[a := (heap s ! a)\<lparr>count := count (heap s ! a) + 1\<rparr>]"
  by (simp add: incr_count_def)

lemmas store_simps =
  ipHits_get_set heap_ipHits_set ipHits_get_heap_update ipHits_get_incr_count heap_incr_count

lemma isRateLimited_fresh_eq:
  assumes "fresh ip now s"
  shows "isRateLimited ip now s =
    (False, ipHits_set ip (length (heap s))
       (s\<lparr>heap := heap s @ [\<lparr>count = 1, resetAt = now + RATE_LIMIT_WINDOW_MS\<rparr>]\<rparr>))"
  using assms
  by (auto simp: fresh_def record_of_def isRateLimited_def new_hit_def split: option.splits)

lemma isRateLimited_within_eq:
  assumes "ipHits_get ip s = Some a" and "\<not> resetAt (heap s ! a) < now"
  shows "isRateLimited ip now s =
    (let s1 = incr_count a s
     in if count (heap s1 ! a) > RATE_LIMIT_MAX then (True, s1)
        else (False, ipHits_set ip a s1))"
  using assms by (simp add: isRateLimited_def)

lemma isRateLimited_store_ok:
  assumes "store_ok s"
  shows "store_ok (snd (isRateLimited ip now s))"
proof (cases "fresh ip now s")
  case True
  show ?thesis
    unfolding isRateLimited_fresh_eq [OF True] using assms
    by (auto simp: store_ok_def store_simps less_Suc_eq split: if_splits)
next
  case False
  then obtain a where a: "ipHits_get ip s = Some a" "\<not> resetAt (heap s ! a) < now"
    by (auto simp: fresh_def record_of_def split: option.splits)
  show ?thesis
    unfolding isRateLimited_within_eq [OF a] using assms a(1)
    by (auto simp: store_ok_def Let_def store_simps split: if_splits)
qed

lemma reachable_store_ok: "reachable s \<Longrightarrow> store_ok s"
  by (induction rule: reachable.induct) (simp_all add: store_ok_init isRateLimited_store_ok)

lemma isRateLimited_fresh:
  assumes "store_ok s" and "fresh ip now s"
  shows "fst (isRateLimited ip now s) = False"
    and "record_of (snd (isRateLimited ip now s)) ip =
           Some \<lparr>count = 1, resetAt = now + RATE_LIMIT_WINDOW_MS\<rparr>"
  unfolding isRateLimited_fresh_eq [OF assms(2)]
  by (simp_all add: record_of_def store_simps)

lemma isRateLimited_within:
  assumes "store_ok s" and "record_of s ip = Some r" and "now \<le> resetAt r"
  shows "fst (isRateLimited ip now s) = (RATE_LIMIT_MAX < count r + 1)"
    and "record_of (snd (isRateLimited ip now s)) ip = Some (r\<lparr>count := count r + 1\<rparr>)"
proof -
  from assms(2) obtain a where a: "ipHits_get ip s = Some a" and r: "heap s ! a = r"
    by (auto simp: record_of_def)
  from assms(1) a have len: "a < length (heap s)"
    by (auto simp: store_ok_def)
  from assms(3) r have ne: "\<not> resetAt (heap s ! a) < now"
    by simp
  show "fst (isRateLimited ip now s) = (RATE_LIMIT_MAX < count r + 1)"
    unfolding isRateLimited_within_eq [OF a ne] using len r
    by (simp add: Let_def store_simps)
  show "record_of (snd (isRateLimited ip now s)) ip = Some (r\<lparr>count := count r + 1\<rparr>)"
    unfolding isRateLimited_within_eq [OF a ne] using len r a
    by (simp add: Let_def record_of_def store_simps)
qed

lemma isRateLimited_frame:
  assumes "store_ok s" and "k \<noteq> ip"
  shows "record_of (snd (isRateLimited ip now s)) k = record_of s k"
proof (cases "fresh ip now s")
  case True
  show ?thesis
    unfolding isRateLimited_fresh_eq [OF True] using assms
    by (cases "ipHits_get k s")
       (auto simp: record_of_def store_simps store_ok_def nth_append)
next
  case False
  then obtain a where a: "ipHits_get ip s = Some a" "\<not> resetAt (heap s ! a) < now"
    by (auto simp: fresh_def record_of_def split: option.splits)
  have other: "b \<noteq> a" if "ipHits_get k s = Some b" for b
    using that a(1) assms by (auto simp: store_ok_def)
  show ?thesis
    unfolding isRateLimited_within_eq [OF a]
    by (cases "ipHits_get k s")
       (use assms(2) other in \<open>auto simp: Let_def record_of_def store_simps\<close>)
qed

section \<open>Histories\<close>


lemma final_Nil: "final [] s = s"
  by (simp add: final_def)

lemma final_Cons: "final (c # cs) s = final cs (snd (isRateLimited (fst c) (snd c) s))"
  by (simp add: final_def split_beta Let_def)


lemma outcomes_for_Nil: "outcomes_for k [] s = []"
  by (simp add: outcomes_for_def outcomes_def)

lemma outcomes_for_Cons:
  "outcomes_for k (c # cs) s =
     (if fst c = k then [fst (isRateLimited (fst c) (snd c) s)] else []) @
     outcomes_for k cs (snd (isRateLimited (fst c) (snd c) s))"
  by (simp add: outcomes_for_def outcomes_def split_beta Let_def)

lemma final_store_ok: "store_ok s \<Longrightarrow> store_ok (final cs s)"
  by (induction cs arbitrary: s) (simp_all add: final_Nil final_Cons isRateLimited_store_ok)

lemma final_reachable: "reachable s \<Longrightarrow> reachable (final cs s)"
  by (induction cs arbitrary: s) (simp_all add: final_Nil final_Cons reachable_step)

text \<open>
  While every call for the key comes no later than the \<open>resetAt\<close> of its record, the
  record only counts: each call adds one, and call number \<open>i\<close> (from 0) is refused
  exactly when the count it found, plus one, is above the maximum.
\<close>

lemma window_run:
  assumes "store_ok s" and "record_of s k = Some r"
    and "\<forall>c \<in> set cs. fst c = k \<longrightarrow> snd c \<le> resetAt r"
  shows "record_of (final cs s) k = Some (r\<lparr>count := count r + int (length (calls_for k cs))\<rparr>) \<and>
         outcomes_for k cs s =
           map (\<lambda>i. RATE_LIMIT_MAX < count r + 1 + int i) [0 ..< length (calls_for k cs)]"
  using assms
proof (induction cs arbitrary: s r)
  case Nil
  then show ?case
    by (simp add: final_Nil outcomes_for_Nil calls_for_def)
next
  case (Cons c cs)
  let ?s1 = "snd (isRateLimited (fst c) (snd c) s)"
  have ok1: "store_ok ?s1"
    using Cons.prems(1) by (rule isRateLimited_store_ok)
  show ?case
  proof (cases "fst c = k")
    case False
    then have rec1: "record_of ?s1 k = Some r"
      using Cons.prems(1,2) by (simp add: isRateLimited_frame)
    from Cons.IH [OF ok1 rec1] Cons.prems(3) False show ?thesis
      by (simp add: final_Cons outcomes_for_Cons calls_for_def)
  next
    case True
    then have le: "snd c \<le> resetAt r"
      using Cons.prems(3) by simp
    have rec1: "record_of ?s1 k = Some (r\<lparr>count := count r + 1\<rparr>)"
      using isRateLimited_within(2) [OF Cons.prems(1) _ le, of k] Cons.prems(2) True by simp
    have out: "fst (isRateLimited (fst c) (snd c) s) = (RATE_LIMIT_MAX < count r + 1)"
      using isRateLimited_within(1) [OF Cons.prems(1) _ le, of k] Cons.prems(2) True by simp
    have "\<forall>c \<in> set cs. fst c = k \<longrightarrow> snd c \<le> resetAt (r\<lparr>count := count r + 1\<rparr>)"
      using Cons.prems(3) by simp
    from Cons.IH [OF ok1 rec1 this] True out show ?thesis
      by (simp add: final_Cons outcomes_for_Cons calls_for_def map_upt_Suc add.assoc
          del: upt_Suc)
  qed
qed

lemma map_le_upt:
  "map (\<lambda>i. m \<le> i) [0 ..< n] = replicate (min m n) False @ replicate (n - m) True"
proof (induction n)
  case 0
  show ?case by simp
next
  case (Suc n)
  show ?case
  proof (cases "m \<le> n")
    case True
    then show ?thesis
      using Suc by (simp add: min_def Suc_diff_le replicate_append_same)
  next
    case False
    then have "m = Suc n \<or> Suc n < m"
      by arith
    then show ?thesis
      using Suc False by (auto simp: min_def replicate_append_same)
  qed
qed

lemma fresh_then_window:
  assumes "store_ok s" and "fresh k t0 s"
    and "\<forall>c \<in> set cs. fst c = k \<longrightarrow> snd c \<le> t0 + RATE_LIMIT_WINDOW_MS"
  shows "record_of (final ((k, t0) # cs) s) k =
           Some \<lparr>count = 1 + int (length (calls_for k cs)), resetAt = t0 + RATE_LIMIT_WINDOW_MS\<rparr>"
    and "outcomes_for k ((k, t0) # cs) s =
           map (\<lambda>i. nat RATE_LIMIT_MAX \<le> i) [0 ..< Suc (length (calls_for k cs))]"
proof -
  let ?s1 = "snd (isRateLimited k t0 s)"
  let ?r = "\<lparr>count = 1, resetAt = t0 + RATE_LIMIT_WINDOW_MS\<rparr>"
  have ok1: "store_ok ?s1"
    using assms(1) by (rule isRateLimited_store_ok)
  have rec1: "record_of ?s1 k = Some ?r"
    using assms(1,2) by (rule isRateLimited_fresh(2))
  have out: "fst (isRateLimited k t0 s) = False"
    using assms(1,2) by (rule isRateLimited_fresh(1))
  have win: "\<forall>c \<in> set cs. fst c = k \<longrightarrow> snd c \<le> resetAt ?r"
    using assms(3) by simp
  note W = window_run [OF ok1 rec1 win]
  from W show "record_of (final ((k, t0) # cs) s) k =
      Some \<lparr>count = 1 + int (length (calls_for k cs)), resetAt = t0 + RATE_LIMIT_WINDOW_MS\<rparr>"
    by (simp add: final_Cons)
  have "map (\<lambda>i. RATE_LIMIT_MAX < count ?r + 1 + int i) [0 ..< length (calls_for k cs)] =
        map (\<lambda>i. nat RATE_LIMIT_MAX \<le> Suc i) [0 ..< length (calls_for k cs)]"
    by (rule map_cong) (auto simp: RATE_LIMIT_MAX_def)
  with W out show "outcomes_for k ((k, t0) # cs) s =
      map (\<lambda>i. nat RATE_LIMIT_MAX \<le> i) [0 ..< Suc (length (calls_for k cs))]"
    by (simp add: outcomes_for_Cons map_upt_Suc RATE_LIMIT_MAX_def del: upt_Suc)
qed

section \<open>The claims about the limiter\<close>

text \<open>
  C1. Take a reachable state in which the key is fresh at time \<open>t0\<close> (no record, or an
  expired one), a call for the key at \<open>t0\<close>, and then any calls, for this key and for
  others, in which every call for the key comes within the window the first call opened
  (no later than \<open>t0 + RATE_LIMIT_WINDOW_MS\<close>). Then the results of the calls for the
  key, in order, are: \<open>False\<close> (Admit) for the first 10, and \<open>True\<close> (Reject) for every
  one after them. So the first 10 calls of a window are admitted and call number 11 is
  the first one refused: the check is \<^verbatim>\<open>count > RATE_LIMIT_MAX\<close>.
\<close>

theorem admit_up_to_limit:
  assumes "reachable s" and "fresh k t0 s"
    and "\<forall>c \<in> set cs. fst c = k \<longrightarrow> snd c \<le> t0 + RATE_LIMIT_WINDOW_MS"
  shows "outcomes_for k ((k, t0) # cs) s =
           replicate (min 10 (Suc (length (calls_for k cs)))) False @
           replicate (Suc (length (calls_for k cs)) - 10) True"
  using fresh_then_window(2) [OF reachable_store_ok [OF assms(1)] assms(2,3)]
  by (simp add: RATE_LIMIT_MAX_def map_le_upt del: upt_Suc replicate_Suc)

theorem admit_up_to_limit_witness:
  "outcomes_for ''1.2.3.4''
     ((''1.2.3.4'', 0) # replicate 5 (''1.2.3.4'', 100) @ [(''5.6.7.8'', 7)] @
        replicate 5 (''1.2.3.4'', 60000)) init =
   [False, False, False, False, False, False, False, False, False, False, True]"
proof -
  have f: "fresh ''1.2.3.4'' 0 init"
    by (simp add: fresh_def record_of_def ipHits_get_def init_def)
  have w: "\<forall>c \<in> set (replicate 5 (''1.2.3.4'', 100) @ [(''5.6.7.8'', 7)] @
        replicate 5 (''1.2.3.4'', 60000)). fst c = ''1.2.3.4'' \<longrightarrow> snd c \<le> 0 + RATE_LIMIT_WINDOW_MS"
    by (simp add: RATE_LIMIT_WINDOW_MS_def)
  show ?thesis
    using admit_up_to_limit [OF reachable_init f w]
    by (simp add: calls_for_def numeral_eq_Suc)
qed

lemma ten_calls_record:
  "record_of (final (replicate 10 (''1.2.3.4'', 0)) init) ''1.2.3.4'' =
     Some \<lparr>count = 10, resetAt = 60000\<rparr>"
proof -
  have f: "fresh ''1.2.3.4'' 0 init"
    by (simp add: fresh_def record_of_def ipHits_get_def init_def)
  have w: "\<forall>c \<in> set (replicate 9 (''1.2.3.4'', 0)).
      fst c = ''1.2.3.4'' \<longrightarrow> snd c \<le> 0 + RATE_LIMIT_WINDOW_MS"
    by (simp add: RATE_LIMIT_WINDOW_MS_def)
  have "replicate 10 (''1.2.3.4'', 0::int) = (''1.2.3.4'', 0) # replicate 9 (''1.2.3.4'', 0)"
    by (simp add: numeral_eq_Suc)
  then show ?thesis
    using fresh_then_window(1) [OF store_ok_init f w]
    by (simp add: calls_for_def RATE_LIMIT_WINDOW_MS_def)
qed

lemma ten_calls_reachable: "reachable (final (replicate 10 (''1.2.3.4'', 0)) init)"
  by (rule final_reachable [OF reachable_init])

text \<open>
  C2, as the spec has it, fails. The spec's own scenario: ten calls for \<open>1.2.3.4\<close> at
  time 0 leave the record \<open>count = 10, resetAt = 60000\<close>; a call at 60000, the very
  \<open>resetAt\<close>, is refused and leaves \<open>count = 11, resetAt = 60000\<close>. The claim says it is
  admitted and leaves \<open>count = 1, resetAt = 120000\<close>.
\<close>

theorem boundary_equality_counterexample:
  "record_of (final (replicate 10 (''1.2.3.4'', 0)) init) ''1.2.3.4'' =
     Some \<lparr>count = 10, resetAt = 60000\<rparr> \<and>
   fst (isRateLimited ''1.2.3.4'' 60000 (final (replicate 10 (''1.2.3.4'', 0)) init)) = True \<and>
   record_of (snd (isRateLimited ''1.2.3.4'' 60000 (final (replicate 10 (''1.2.3.4'', 0)) init)))
     ''1.2.3.4'' = Some \<lparr>count = 11, resetAt = 60000\<rparr>"
  using isRateLimited_within [OF reachable_store_ok [OF ten_calls_reachable] ten_calls_record,
      of 60000]
  by (simp add: ten_calls_record RATE_LIMIT_MAX_def)

text \<open>
  C2, amended. The test for expiry is strict, \<^verbatim>\<open>record.resetAt < now\<close>. A call whose
  timestamp equals the record's \<open>resetAt\<close> is still counted in the current window: the
  count grows by one, \<open>resetAt\<close> stays, and the call is refused exactly when the new
  count is above \<open>RATE_LIMIT_MAX\<close>. The first timestamp that starts a new window is
  \<open>resetAt + 1\<close>: that call is admitted and leaves \<open>count = 1\<close> and
  \<open>resetAt = now + RATE_LIMIT_WINDOW_MS\<close>, whatever the count was.
\<close>

theorem boundary_equality_amended:
  assumes "reachable s" and "record_of s k = Some r"
  shows "fst (isRateLimited k (resetAt r) s) = (RATE_LIMIT_MAX < count r + 1) \<and>
         record_of (snd (isRateLimited k (resetAt r) s)) k =
           Some \<lparr>count = count r + 1, resetAt = resetAt r\<rparr> \<and>
         fst (isRateLimited k (resetAt r + 1) s) = False \<and>
         record_of (snd (isRateLimited k (resetAt r + 1) s)) k =
           Some \<lparr>count = 1, resetAt = resetAt r + 1 + RATE_LIMIT_WINDOW_MS\<rparr>"
proof -
  have ok: "store_ok s"
    using assms(1) by (rule reachable_store_ok)
  have f: "fresh k (resetAt r + 1) s"
    using assms(2) by (simp add: fresh_def)
  show ?thesis
    using isRateLimited_within [OF ok assms(2), of "resetAt r"] isRateLimited_fresh [OF ok f]
    by simp
qed

theorem boundary_equality_amended_witness:
  "fst (isRateLimited ''1.2.3.4'' 60000 (final (replicate 10 (''1.2.3.4'', 0)) init)) = True \<and>
   record_of (snd (isRateLimited ''1.2.3.4'' 60000 (final (replicate 10 (''1.2.3.4'', 0)) init)))
     ''1.2.3.4'' = Some \<lparr>count = 11, resetAt = 60000\<rparr> \<and>
   fst (isRateLimited ''1.2.3.4'' 60001 (final (replicate 10 (''1.2.3.4'', 0)) init)) = False \<and>
   record_of (snd (isRateLimited ''1.2.3.4'' 60001 (final (replicate 10 (''1.2.3.4'', 0)) init)))
     ''1.2.3.4'' = Some \<lparr>count = 1, resetAt = 120001\<rparr>"
  using boundary_equality_amended [OF ten_calls_reachable ten_calls_record]
  by (simp add: RATE_LIMIT_MAX_def RATE_LIMIT_WINDOW_MS_def)

text \<open>
  C3. Let a call at \<open>t0\<close> open a window for the key (the key was fresh), and let any
  calls follow, those for the key inside that window, admitted or refused. A call for
  the key at a time \<open>t\<close> with more than \<open>RATE_LIMIT_WINDOW_MS\<close> elapsed since \<open>t0\<close> is
  admitted and leaves the record with \<open>count = 1\<close> (and a window that ends at
  \<open>t + RATE_LIMIT_WINDOW_MS\<close>).
\<close>

theorem window_reset:
  assumes "reachable s" and "fresh k t0 s"
    and "\<forall>c \<in> set cs. fst c = k \<longrightarrow> snd c \<le> t0 + RATE_LIMIT_WINDOW_MS"
    and "t0 + RATE_LIMIT_WINDOW_MS < t"
  shows "fst (isRateLimited k t (final ((k, t0) # cs) s)) = False \<and>
         record_of (snd (isRateLimited k t (final ((k, t0) # cs) s))) k =
           Some \<lparr>count = 1, resetAt = t + RATE_LIMIT_WINDOW_MS\<rparr>"
proof -
  have ok: "store_ok s"
    using assms(1) by (rule reachable_store_ok)
  have "fresh k t (final ((k, t0) # cs) s)"
    using fresh_then_window(1) [OF ok assms(2,3)] assms(4) by (simp add: fresh_def)
  then show ?thesis
    using isRateLimited_fresh [OF final_store_ok [OF ok]] by simp
qed

theorem window_reset_witness:
  "fst (isRateLimited ''1.2.3.4'' 60001
          (final ((''1.2.3.4'', 0) # replicate 11 (''1.2.3.4'', 0)) init)) = False \<and>
   record_of (snd (isRateLimited ''1.2.3.4'' 60001
          (final ((''1.2.3.4'', 0) # replicate 11 (''1.2.3.4'', 0)) init))) ''1.2.3.4'' =
     Some \<lparr>count = 1, resetAt = 120001\<rparr>"
proof -
  have f: "fresh ''1.2.3.4'' 0 init"
    by (simp add: fresh_def record_of_def ipHits_get_def init_def)
  have w: "\<forall>c \<in> set (replicate 11 (''1.2.3.4'', 0)).
      fst c = ''1.2.3.4'' \<longrightarrow> snd c \<le> 0 + RATE_LIMIT_WINDOW_MS"
    by (simp add: RATE_LIMIT_WINDOW_MS_def)
  have t: "0 + RATE_LIMIT_WINDOW_MS < 60001"
    by (simp add: RATE_LIMIT_WINDOW_MS_def)
  show ?thesis
    using window_reset [OF reachable_init f w t]
    by (simp add: RATE_LIMIT_WINDOW_MS_def)
qed

lemma rejected_record:
  assumes "store_ok s" and "fst (isRateLimited k t s)"
  shows "\<exists>r1. record_of (snd (isRateLimited k t s)) k = Some r1 \<and> RATE_LIMIT_MAX < count r1"
proof (cases "fresh k t s")
  case True
  with assms show ?thesis
    by (simp add: isRateLimited_fresh(1))
next
  case False
  then obtain r where r: "record_of s k = Some r" and le: "t \<le> resetAt r"
    by (auto simp: fresh_def split: option.splits)
  from isRateLimited_within [OF assms(1) r le] assms(2) show ?thesis
    by simp
qed

lemma map_all_True:
  assumes "\<And>i. f i"
  shows "map f [0 ..< n] = replicate n True"
  by (induction n) (simp_all add: assms replicate_append_same)

text \<open>
  C4. Let a call for the key be refused, and let \<open>r1\<close> be the record it leaves (there
  is one). Then, in any calls that follow, for this key and for others, as long as every
  call for the key comes within the same window (no later than \<open>resetAt r1\<close>), every
  call for the key is refused, and the record's count has grown by exactly the number
  of these calls, one for each, with \<open>resetAt\<close> as it was. The count is above
  \<open>RATE_LIMIT_MAX\<close> from the refused call on.
\<close>

theorem rejection_persists:
  assumes "reachable s" and "fst (isRateLimited k t s)"
  shows "(\<exists>r1. record_of (snd (isRateLimited k t s)) k = Some r1 \<and> RATE_LIMIT_MAX < count r1) \<and>
         (\<forall>r1 cs. record_of (snd (isRateLimited k t s)) k = Some r1 \<and>
                  (\<forall>c \<in> set cs. fst c = k \<longrightarrow> snd c \<le> resetAt r1) \<longrightarrow>
            outcomes_for k cs (snd (isRateLimited k t s)) =
              replicate (length (calls_for k cs)) True \<and>
            record_of (final cs (snd (isRateLimited k t s))) k =
              Some \<lparr>count = count r1 + int (length (calls_for k cs)), resetAt = resetAt r1\<rparr>)"
proof (intro conjI allI impI)
  have ok: "store_ok s"
    using assms(1) by (rule reachable_store_ok)
  let ?s1 = "snd (isRateLimited k t s)"
  have ok1: "store_ok ?s1"
    using ok by (rule isRateLimited_store_ok)
  from rejected_record [OF ok assms(2)]
  show ex: "\<exists>r1. record_of ?s1 k = Some r1 \<and> RATE_LIMIT_MAX < count r1" .
  fix r1 cs
  assume a: "record_of ?s1 k = Some r1 \<and> (\<forall>c \<in> set cs. fst c = k \<longrightarrow> snd c \<le> resetAt r1)"
  with ex have big: "RATE_LIMIT_MAX < count r1"
    by auto
  from a have rec: "record_of ?s1 k = Some r1"
    and win: "\<forall>c \<in> set cs. fst c = k \<longrightarrow> snd c \<le> resetAt r1"
    by simp_all
  note W = window_run [OF ok1 rec win]
  have "map (\<lambda>i. RATE_LIMIT_MAX < count r1 + 1 + int i) [0 ..< length (calls_for k cs)] =
        replicate (length (calls_for k cs)) True"
    using big by (intro map_all_True) simp
  with W show "outcomes_for k cs ?s1 = replicate (length (calls_for k cs)) True"
    by simp
  from W show "record_of (final cs ?s1) k =
      Some \<lparr>count = count r1 + int (length (calls_for k cs)), resetAt = resetAt r1\<rparr>"
    by simp
qed

lemma eleventh_call:
  "fst (isRateLimited ''1.2.3.4'' 0 (final (replicate 10 (''1.2.3.4'', 0)) init)) = True"
  "record_of (snd (isRateLimited ''1.2.3.4'' 0 (final (replicate 10 (''1.2.3.4'', 0)) init)))
     ''1.2.3.4'' = Some \<lparr>count = 11, resetAt = 60000\<rparr>"
  using isRateLimited_within [OF reachable_store_ok [OF ten_calls_reachable] ten_calls_record,
      of 0]
  by (simp_all add: RATE_LIMIT_MAX_def)

theorem rejection_persists_witness:
  "outcomes_for ''1.2.3.4'' [(''1.2.3.4'', 5), (''5.6.7.8'', 6), (''1.2.3.4'', 60000)]
     (snd (isRateLimited ''1.2.3.4'' 0 (final (replicate 10 (''1.2.3.4'', 0)) init))) =
     [True, True] \<and>
   record_of (final [(''1.2.3.4'', 5), (''5.6.7.8'', 6), (''1.2.3.4'', 60000)]
     (snd (isRateLimited ''1.2.3.4'' 0 (final (replicate 10 (''1.2.3.4'', 0)) init))))
     ''1.2.3.4'' = Some \<lparr>count = 13, resetAt = 60000\<rparr>"
proof -
  let ?s = "final (replicate 10 (''1.2.3.4'', 0)) init"
  let ?cs = "[(''1.2.3.4'', 5::int), (''5.6.7.8'', 6), (''1.2.3.4'', 60000)]"
  have rej: "fst (isRateLimited ''1.2.3.4'' 0 ?s)"
    by (simp add: eleventh_call(1))
  have win: "\<forall>c \<in> set ?cs. fst c = ''1.2.3.4'' \<longrightarrow>
      snd c \<le> resetAt \<lparr>count = 11, resetAt = 60000\<rparr>"
    by simp
  from rejection_persists [OF ten_calls_reachable rej]
  have "\<forall>r1 cs. record_of (snd (isRateLimited ''1.2.3.4'' 0 ?s)) ''1.2.3.4'' = Some r1 \<and>
                  (\<forall>c \<in> set cs. fst c = ''1.2.3.4'' \<longrightarrow> snd c \<le> resetAt r1) \<longrightarrow>
            outcomes_for ''1.2.3.4'' cs (snd (isRateLimited ''1.2.3.4'' 0 ?s)) =
              replicate (length (calls_for ''1.2.3.4'' cs)) True \<and>
            record_of (final cs (snd (isRateLimited ''1.2.3.4'' 0 ?s))) ''1.2.3.4'' =
              Some \<lparr>count = count r1 + int (length (calls_for ''1.2.3.4'' cs)),
                    resetAt = resetAt r1\<rparr>"
    by (rule conjunct2)
  from this [rule_format, of "\<lparr>count = 11, resetAt = 60000\<rparr>" ?cs] eleventh_call(2) win
  show ?thesis
    by (simp add: calls_for_def)
qed






text \<open>
  The result of a call, and the record it leaves for its key, depend on the state only
  through the record the key has.
\<close>

lemma isRateLimited_same_record:
  assumes "store_ok s" and "store_ok s'" and "record_of s k = record_of s' k"
  shows "fst (isRateLimited k t s) = fst (isRateLimited k t s')"
    and "record_of (snd (isRateLimited k t s)) k = record_of (snd (isRateLimited k t s')) k"
proof -
  have both: "fst (isRateLimited k t s) = fst (isRateLimited k t s') \<and>
      record_of (snd (isRateLimited k t s)) k = record_of (snd (isRateLimited k t s')) k"
  proof (cases "fresh k t s")
    case True
    then have "fresh k t s'"
      using assms(3) by (simp add: fresh_def)
    with True assms(1,2) show ?thesis
      by (simp add: isRateLimited_fresh)
  next
    case False
    then obtain r where r: "record_of s k = Some r" and le: "t \<le> resetAt r"
      by (auto simp: fresh_def split: option.splits)
    from r assms(3) have r': "record_of s' k = Some r"
      by simp
    show ?thesis
      by (simp add: isRateLimited_within [OF assms(1) r le]
          isRateLimited_within [OF assms(2) r' le])
  qed
  from both show "fst (isRateLimited k t s) = fst (isRateLimited k t s')"
    by simp
  from both show
    "record_of (snd (isRateLimited k t s)) k = record_of (snd (isRateLimited k t s')) k"
    by simp
qed

lemma isRateLimited_has_record:
  assumes "store_ok s"
  shows "\<exists>r. record_of (snd (isRateLimited k t s)) k = Some r"
proof (cases "fresh k t s")
  case True
  with assms show ?thesis
    by (simp add: isRateLimited_fresh(2))
next
  case False
  then obtain r where r: "record_of s k = Some r" and le: "t \<le> resetAt r"
    by (auto simp: fresh_def split: option.splits)
  from isRateLimited_within(2) [OF assms r le] show ?thesis
    by simp
qed

lemma isRateLimited_keys:
  "fst ` set (ipHits (snd (isRateLimited k t s))) = insert k (fst ` set (ipHits s))"
proof -
  have set: "fst ` set (ipHits (ipHits_set k a u)) = insert k (fst ` set (ipHits u))" for a u
    by (simp add: ipHits_set_def dom_update)
  have inc: "ipHits (incr_count a s) = ipHits s" for a
    by (simp add: incr_count_def)
  have mem: "k \<in> fst ` set (ipHits s)" if "ipHits_get k s = Some a" for a
    using that by (auto simp: ipHits_get_def dest: map_of_SomeD intro: rev_image_eqI)
  show ?thesis
    by (cases "ipHits_get k s")
       (auto simp: isRateLimited_def new_hit_def Let_def set inc dest: mem)
qed

lemma outcomes_for_only_own_calls:
  assumes "store_ok s" and "store_ok s'" and "record_of s k = record_of s' k"
  shows "outcomes_for k cs s = outcomes (calls_for k cs) s'"
  using assms
proof (induction cs arbitrary: s s')
  case Nil
  show ?case
    by (simp add: outcomes_for_Nil outcomes_def calls_for_def)
next
  case (Cons c cs)
  let ?s1 = "snd (isRateLimited (fst c) (snd c) s)"
  have ok1: "store_ok ?s1"
    using Cons.prems(1) by (rule isRateLimited_store_ok)
  show ?case
  proof (cases "fst c = k")
    case False
    then have "record_of ?s1 k = record_of s' k"
      using Cons.prems by (simp add: isRateLimited_frame)
    from Cons.IH [OF ok1 Cons.prems(2) this] False show ?thesis
      by (simp add: outcomes_for_Cons calls_for_def)
  next
    case True
    let ?s1' = "snd (isRateLimited k (snd c) s')"
    have ok1': "store_ok ?s1'"
      using Cons.prems(2) by (rule isRateLimited_store_ok)
    have "record_of ?s1 k = record_of ?s1' k"
      using isRateLimited_same_record(2) [OF Cons.prems] True by simp
    from Cons.IH [OF ok1 ok1' this] True isRateLimited_same_record(1) [OF Cons.prems, of "snd c"]
    show ?thesis
      by (simp add: outcomes_for_Cons calls_for_def outcomes_def split_beta Let_def)
  qed
qed

text \<open>
  C6. In a reachable state, a call for key \<open>k\<close> leaves the record of every other key
  \<open>k'\<close> as it was (also the absence of one), does not change what a call for \<open>k'\<close>
  would return, leaves a record for \<open>k\<close>, and adds at most the key \<open>k\<close> to the keys
  of the table. Over a history: the results of the calls for \<open>k'\<close> in any sequence of
  calls are the results these calls would have with the calls for all other keys left
  out.
\<close>

theorem key_independence:
  assumes "reachable s" and "k' \<noteq> k"
  shows "record_of (snd (isRateLimited k now s)) k' = record_of s k' \<and>
         fst (isRateLimited k' t (snd (isRateLimited k now s))) = fst (isRateLimited k' t s) \<and>
         (\<exists>r. record_of (snd (isRateLimited k now s)) k = Some r) \<and>
         fst ` set (ipHits (snd (isRateLimited k now s))) = insert k (fst ` set (ipHits s)) \<and>
         outcomes_for k' cs s = outcomes (calls_for k' cs) s"
proof -
  have ok: "store_ok s"
    using assms(1) by (rule reachable_store_ok)
  have ok1: "store_ok (snd (isRateLimited k now s))"
    using ok by (rule isRateLimited_store_ok)
  have frame: "record_of (snd (isRateLimited k now s)) k' = record_of s k'"
    using ok assms(2) by (rule isRateLimited_frame)
  show ?thesis
    using frame isRateLimited_same_record(1) [OF ok1 ok frame]
      isRateLimited_has_record [OF ok] isRateLimited_keys
      outcomes_for_only_own_calls [OF ok ok refl]
    by simp
qed

theorem key_independence_witness:
  "record_of (snd (isRateLimited ''5.6.7.8'' 0 (final (replicate 10 (''1.2.3.4'', 0)) init)))
     ''1.2.3.4'' = Some \<lparr>count = 10, resetAt = 60000\<rparr> \<and>
   fst (isRateLimited ''1.2.3.4'' 0
     (snd (isRateLimited ''5.6.7.8'' 0 (final (replicate 10 (''1.2.3.4'', 0)) init)))) = True \<and>
   outcomes_for ''1.2.3.4'' [(''5.6.7.8'', 1), (''1.2.3.4'', 2), (''5.6.7.8'', 3)]
     (final (replicate 10 (''1.2.3.4'', 0)) init) =
   outcomes [(''1.2.3.4'', 2)] (final (replicate 10 (''1.2.3.4'', 0)) init)"
proof -
  have ne: "''1.2.3.4'' \<noteq> ''5.6.7.8''"
    by simp
  show ?thesis
    using key_independence [OF ten_calls_reachable ne, of 0 0
        "[(''5.6.7.8'', 1), (''1.2.3.4'', 2), (''5.6.7.8'', 3)]"]
    by (simp add: ten_calls_record eleventh_call(1) calls_for_def)
qed

section \<open>The claims about the middleware\<close>

lemma split_not_Nil: "split sep h \<noteq> []"
  by (induction h) (simp_all split: list.splits)

text \<open>The first piece of \<^verbatim>\<open>split\<close> is what comes before the first separator.\<close>

lemma at_split_0: "at (split sep h) 0 = Some (takeWhile (\<lambda>c. c \<noteq> sep) h)"
proof (induction h)
  case Nil
  show ?case by (simp add: at_def)
next
  case (Cons c h)
  show ?case
  proof (cases "split sep h")
    case Nil
    then show ?thesis
      using split_not_Nil [of sep h] by simp
  next
    case (Cons w ws)
    with Cons.IH show ?thesis
      by (simp add: at_def)
  qed
qed

lemma client_ip_cases:
  "client_ip req =
     (if truthy (req_ip req) then the (req_ip req)
      else (case headers_get ''x-forwarded-for'' req of
              None \<Rightarrow> ''unknown''
            | Some h \<Rightarrow>
                if trim (takeWhile (\<lambda>c. c \<noteq> CHR '','') h) \<noteq> []
                then trim (takeWhile (\<lambda>c. c \<noteq> CHR '','') h) else ''unknown''))"
  by (cases "req_ip req"; cases "headers_get ''x-forwarded-for'' req")
     (simp_all add: client_ip_def js_or_def truthy_def at_split_0)

lemma middleware_protected:
  assumes "isProtectedPath req"
  shows "middleware upd req now s w =
     (if fst (isRateLimited (client_ip req) now s)
      then (NextResponse ''Too Many Requests'' 429, snd (isRateLimited (client_ip req) now s), w)
      else (fst (upd req w), snd (isRateLimited (client_ip req) now s), snd (upd req w)))"
  using assms by (simp add: middleware_def Let_def split_beta)

lemma middleware_unprotected:
  assumes "\<not> isProtectedPath req"
  shows "middleware upd req now s w = (fst (upd req w), s, snd (upd req w))"
  using assms by (simp add: middleware_def Let_def split_beta)

text \<open>
  C8. For a request that is checked (a POST to \<open>/login\<close> or \<open>/create\<close>): when the
  limiter refuses the key of the request, the middleware answers with the body
  \<open>Too Many Requests\<close> and status 429, whatever \<open>updateSession\<close> is, and the state
  outside the limiter is as it was: the session refresh is not run. When the limiter
  admits it, the answer and the outside state are those of \<open>updateSession\<close> on the
  request as it came.
\<close>

theorem too_many_requests:
  "(isProtectedPath req \<and> fst (isRateLimited (client_ip req) now s) \<longrightarrow>
      middleware updateSession req now s w =
        (\<lparr>resp_body = ''Too Many Requests'', resp_status = 429\<rparr>,
         snd (isRateLimited (client_ip req) now s), w)) \<and>
   (isProtectedPath req \<and> \<not> fst (isRateLimited (client_ip req) now s) \<longrightarrow>
      middleware updateSession req now s w =
        (fst (updateSession req w), snd (isRateLimited (client_ip req) now s),
         snd (updateSession req w)))"
  by (simp add: middleware_protected NextResponse_def)

lemma create_from_1234:
  "isProtectedPath \<lparr>req_method = ''POST'', req_pathname = ''/create'',
      req_ip = Some ''1.2.3.4'', req_headers = []\<rparr>"
  "client_ip \<lparr>req_method = ''POST'', req_pathname = ''/create'',
      req_ip = Some ''1.2.3.4'', req_headers = []\<rparr> = ''1.2.3.4''"
  by (simp_all add: isProtectedPath_def client_ip_cases truthy_def)

theorem too_many_requests_witness:
  "middleware (\<lambda>r w. (\<lparr>resp_body = ''refreshed'', resp_status = 200\<rparr>, Suc w))
     \<lparr>req_method = ''POST'', req_pathname = ''/create'', req_ip = Some ''1.2.3.4'',
       req_headers = []\<rparr>
     0 (final (replicate 10 (''1.2.3.4'', 0)) init) (0::nat) =
     (\<lparr>resp_body = ''Too Many Requests'', resp_status = 429\<rparr>,
      snd (isRateLimited ''1.2.3.4'' 0 (final (replicate 10 (''1.2.3.4'', 0)) init)), 0) \<and>
   middleware (\<lambda>r w. (\<lparr>resp_body = ''refreshed'', resp_status = 200\<rparr>, Suc w))
     \<lparr>req_method = ''POST'', req_pathname = ''/create'', req_ip = Some ''1.2.3.4'',
       req_headers = []\<rparr>
     0 init (0::nat) =
     (\<lparr>resp_body = ''refreshed'', resp_status = 200\<rparr>,
      snd (isRateLimited ''1.2.3.4'' 0 init), 1)"
proof -
  let ?req = "\<lparr>req_method = ''POST'', req_pathname = ''/create'', req_ip = Some ''1.2.3.4'',
       req_headers = []\<rparr>"
  let ?upd = "\<lambda>(r::request) (w::nat). (\<lparr>resp_body = ''refreshed'', resp_status = 200\<rparr>, Suc w)"
  have adm: "\<not> fst (isRateLimited ''1.2.3.4'' 0 init)"
    by (simp add: isRateLimited_def ipHits_get_def init_def new_hit_def)
  show ?thesis
    using too_many_requests [of ?req 0 "final (replicate 10 (''1.2.3.4'', 0)) init" ?upd 0]
      too_many_requests [of ?req 0 init ?upd 0]
    by (simp add: create_from_1234 eleventh_call(1) adm)
qed

text \<open>
  C9. The key given to the limiter. When the request has a connection address
  (\<^verbatim>\<open>request.ip\<close>, a string that is not empty), the key is that address. When it has
  none (\<^verbatim>\<open>undefined\<close>, or the empty string), and has an \<open>x-forwarded-for\<close> header,
  in any spelling of the name, whose first entry (what comes before the first comma),
  trimmed, is not empty, the key is that trimmed entry. When it has neither an address
  nor the header, the key is \<open>unknown\<close>. For a checked request, the limiter is called
  with this key.
\<close>

theorem client_key_derivation:
  "(\<forall>a. req_ip req = Some a \<and> a \<noteq> [] \<longrightarrow> client_ip req = a) \<and>
   (\<forall>h. (req_ip req = None \<or> req_ip req = Some []) \<and>
        headers_get ''x-forwarded-for'' req = Some h \<and>
        trim (takeWhile (\<lambda>c. c \<noteq> CHR '','') h) \<noteq> [] \<longrightarrow>
      client_ip req = trim (takeWhile (\<lambda>c. c \<noteq> CHR '','') h)) \<and>
   ((req_ip req = None \<or> req_ip req = Some []) \<and>
      headers_get ''x-forwarded-for'' req = None \<longrightarrow>
      client_ip req = ''unknown'') \<and>
   (isProtectedPath req \<longrightarrow>
      fst (snd (middleware updateSession req now s w)) =
        snd (isRateLimited (client_ip req) now s))"
  by (auto simp: client_ip_cases truthy_def middleware_protected)

lemma forwarded_examples:
  "headers_get ''x-forwarded-for''
     \<lparr>req_method = ''POST'', req_pathname = ''/create'', req_ip = None,
       req_headers = [(''Host'', ''example.org''),
                      (''X-Forwarded-For'', '' 1.2.3.4 , 5.6.7.8'')]\<rparr> =
     Some '' 1.2.3.4 , 5.6.7.8''"
  "headers_get ''x-forwarded-for''
     \<lparr>req_method = ''POST'', req_pathname = ''/create'', req_ip = Some [],
       req_headers = [(''X-FORWARDED-FOR'', ''5.6.7.8'')]\<rparr> = Some ''5.6.7.8''"
  "headers_get ''x-forwarded-for''
     \<lparr>req_method = ''POST'', req_pathname = ''/create'', req_ip = None,
       req_headers = [(''Host'', ''example.org'')]\<rparr> = None"
  "headers_get ''x-forwarded-for''
     \<lparr>req_method = ''POST'', req_pathname = ''/create'', req_ip = Some [],
       req_headers = []\<rparr> = None"
  "headers_get ''x-forwarded-for''
     \<lparr>req_method = ''POST'', req_pathname = ''/create'', req_ip = Some [],
       req_headers = [(''X-Forwarded-For'', '' , 5.6.7.8'')]\<rparr> = Some '' , 5.6.7.8''"
  "headers_get ''x-forwarded-for''
     \<lparr>req_method = ''POST'', req_pathname = ''/create'', req_ip = None,
       req_headers = [(''X-Forwarded-For'', [])]\<rparr> = Some []"
  by code_simp+

lemma trim_examples:
  "trim (takeWhile (\<lambda>c. c \<noteq> CHR '','') '' , 5.6.7.8'') = []"
  "trim (takeWhile (\<lambda>c. c \<noteq> CHR '','') []) = []"
  by code_simp+

theorem client_key_derivation_witness:
  "client_ip \<lparr>req_method = ''POST'', req_pathname = ''/create'', req_ip = Some ''9.9.9.9'',
      req_headers = [(''X-Forwarded-For'', ''1.2.3.4'')]\<rparr> = ''9.9.9.9'' \<and>
   client_ip \<lparr>req_method = ''POST'', req_pathname = ''/create'', req_ip = None,
      req_headers = [(''Host'', ''example.org''),
                     (''X-Forwarded-For'', '' 1.2.3.4 , 5.6.7.8'')]\<rparr> = ''1.2.3.4'' \<and>
   client_ip \<lparr>req_method = ''POST'', req_pathname = ''/create'', req_ip = Some [],
      req_headers = [(''X-FORWARDED-FOR'', ''5.6.7.8'')]\<rparr> = ''5.6.7.8'' \<and>
   client_ip \<lparr>req_method = ''POST'', req_pathname = ''/create'', req_ip = None,
      req_headers = [(''Host'', ''example.org'')]\<rparr> = ''unknown'' \<and>
   client_ip \<lparr>req_method = ''POST'', req_pathname = ''/create'', req_ip = Some [],
      req_headers = []\<rparr> = ''unknown'' \<and>
   fst (snd (middleware (\<lambda>r w. (\<lparr>resp_body = ''refreshed'', resp_status = 200\<rparr>, Suc w))
      \<lparr>req_method = ''POST'', req_pathname = ''/create'', req_ip = None,
        req_headers = [(''Host'', ''example.org'')]\<rparr>
      0 init (0::nat))) = snd (isRateLimited ''unknown'' 0 init)"
proof -
  let ?a = "\<lparr>req_method = ''POST'', req_pathname = ''/create'', req_ip = Some ''9.9.9.9'',
      req_headers = [(''X-Forwarded-For'', ''1.2.3.4'')]\<rparr>"
  let ?b = "\<lparr>req_method = ''POST'', req_pathname = ''/create'', req_ip = None,
      req_headers = [(''Host'', ''example.org''),
                     (''X-Forwarded-For'', '' 1.2.3.4 , 5.6.7.8'')]\<rparr>"
  let ?d = "\<lparr>req_method = ''POST'', req_pathname = ''/create'', req_ip = Some [],
      req_headers = [(''X-FORWARDED-FOR'', ''5.6.7.8'')]\<rparr>"
  let ?c = "\<lparr>req_method = ''POST'', req_pathname = ''/create'', req_ip = None,
      req_headers = [(''Host'', ''example.org'')]\<rparr>"
  let ?e = "\<lparr>req_method = ''POST'', req_pathname = ''/create'', req_ip = Some [],
      req_headers = []\<rparr>"
  let ?upd = "\<lambda>(r::request) (w::nat). (\<lparr>resp_body = ''refreshed'', resp_status = 200\<rparr>, Suc w)"
  have p: "isProtectedPath ?c"
    by (simp add: isProtectedPath_def)
  have a: "client_ip ?a = ''9.9.9.9''"
    using client_key_derivation [of ?a ?upd 0 init 0] by simp
  have b: "client_ip ?b = ''1.2.3.4''"
    using client_key_derivation [of ?b ?upd 0 init 0]
    by (simp add: forwarded_examples(1) trim_def is_space_def)
  have d: "client_ip ?d = ''5.6.7.8''"
    using client_key_derivation [of ?d ?upd 0 init 0]
    by (simp add: forwarded_examples(2) trim_def is_space_def)
  have c: "client_ip ?c = ''unknown''"
    using client_key_derivation [of ?c ?upd 0 init 0]
    by (simp add: forwarded_examples(3))
  have e: "client_ip ?e = ''unknown''"
    using client_key_derivation [of ?e ?upd 0 init 0]
    by (simp add: forwarded_examples(4))
  have m: "fst (snd (middleware ?upd ?c 0 init 0)) = snd (isRateLimited ''unknown'' 0 init)"
    using client_key_derivation [of ?c ?upd 0 init 0] p c by simp
  from a b d c e m show ?thesis
    by simp
qed

text \<open>
  C10. When the connection address is absent or the empty string, and the
  \<open>x-forwarded-for\<close> header is there, in any spelling of the name, but its first
  entry trims to the empty string (an empty value, or one that starts with a comma), the
  key is \<open>unknown\<close> as well.
\<close>

theorem blank_forwarded_header_unknown:
  assumes "req_ip req = None \<or> req_ip req = Some []"
    and "headers_get ''x-forwarded-for'' req = Some h"
    and "trim (takeWhile (\<lambda>c. c \<noteq> CHR '','') h) = []"
  shows "client_ip req = ''unknown''"
  using assms by (auto simp: client_ip_cases truthy_def)

theorem blank_forwarded_header_unknown_witness:
  "client_ip \<lparr>req_method = ''POST'', req_pathname = ''/create'', req_ip = Some [],
      req_headers = [(''X-Forwarded-For'', '' , 5.6.7.8'')]\<rparr> = ''unknown'' \<and>
   client_ip \<lparr>req_method = ''POST'', req_pathname = ''/create'', req_ip = None,
      req_headers = [(''X-Forwarded-For'', [])]\<rparr> = ''unknown''"
proof -
  let ?a = "\<lparr>req_method = ''POST'', req_pathname = ''/create'', req_ip = Some [],
      req_headers = [(''X-Forwarded-For'', '' , 5.6.7.8'')]\<rparr>"
  let ?b = "\<lparr>req_method = ''POST'', req_pathname = ''/create'', req_ip = None,
      req_headers = [(''X-Forwarded-For'', [])]\<rparr>"
  have ia: "req_ip ?a = None \<or> req_ip ?a = Some []"
    by simp
  have ib: "req_ip ?b = None \<or> req_ip ?b = Some []"
    by simp
  show ?thesis
    using blank_forwarded_header_unknown [OF ia forwarded_examples(5) trim_examples(1)]
      blank_forwarded_header_unknown [OF ib forwarded_examples(6) trim_examples(2)]
    by simp
qed

end
